theory Spec2Isabelle
  imports Complex_Main "HOL-Library.Signed_Division" "HOL-Library.Multiset"
begin

section \<open>The Dijkstra priority queue of pqueue.cpp\<close>

text \<open>
  A shallow embedding of class \<open>PQueue\<close> (pqueue.h, pqueue.cpp): a binary heap
  \<open>Queue\<close> of (vertex, distance) elements together with the table \<open>Positions\<close>
  that gives, for every vertex, its slot in \<open>Queue\<close> or \<open>-1\<close>.

  Conventions of the model.
  \<^item> The C++ \<open>int\<close>s (vertices, slots, \<open>NumElements\<close>, \<open>Capacity\<close>) are \<open>int\<close>.
    The only arithmetic on them is \<open>2 * p + 1\<close>, \<open>2 * p + 2\<close>, \<open>(p - 1) / 2\<close>
    and adding or subtracting 1 on values bounded by the capacity; the model is the code for
    capacities below \<open>2^30\<close>, where none of these overflows. The C++ division
    truncates towards zero (\<open>(0 - 1) / 2 = 0\<close>), which is \<open>sdiv\<close>.
  \<^item> The C++ \<open>double\<close> distances are \<open>real\<close>. The code only copies and compares
    distances (\<open><\<close>, \<open>\<le>\<close>, \<open>>\<close>, \<open>\<ge>\<close>, \<open>==\<close>, \<open>!=\<close>) and writes the constant
    \<open>-1\<close>, so the model is the code on all finite doubles; NaN is outside the model.
  \<^item> The two arrays are lists whose length is the allocated size. An access outside
    the allocation is undefined behaviour in C++; the model stops there with the
    error \<open>OutOfBounds\<close>.
  \<^item> A member function that mutates the object takes the state and returns a pair:
    the outcome (\<open>Inl\<close> an error for a thrown exception, \<open>Inr\<close> the returned value)
    and the state of the object at that moment, so that the fields a throwing call
    has already written stay visible.
\<close>

subsection \<open>Data\<close>

record Elem =
  V :: int
  D :: real

record pqueue =
  Positions :: "int list"
  Queue :: "Elem list"
  NumElements :: int
  Capacity :: int

datatype error =
    BadArrayNewLength       \<comment> \<open>\<open>new T[N]\<close> with a negative \<open>N\<close>\<close>
  | InvalidVertexPush       \<comment> \<open>"Invalid vertex passed to PQueue::Push, must be 0..N-1"\<close>
  | VertexMismatch          \<comment> \<open>"**Internal error: vertex mismatch in PQueue::Push"\<close>
  | PositionNotDeleted      \<comment> \<open>"**Internal error: vertex position not deleted in PQueue::Push"\<close>
  | StackEmpty              \<comment> \<open>"stack empty!"\<close>
  | InvalidVertexInsert     \<comment> \<open>"Invalid vertex passed to PQueue::Insert"\<close>
  | StillInQueue            \<comment> \<open>"**Internal error: PQueue::Insert called while vertex is still in queue"\<close>
  | DeleteEmptyQueue        \<comment> \<open>"**Internal error: call to PQueue::Delete with an empty queue"\<close>
  | DeleteInvalidPosition   \<comment> \<open>"**Internal error: invalid position in PQueue::Delete"\<close>
  | OutOfBounds             \<comment> \<open>an array access outside the allocation (undefined behaviour)\<close>

subsection \<open>Array accesses\<close>

definition inQ :: "pqueue \<Rightarrow> int \<Rightarrow> bool" where
  "inQ s i \<longleftrightarrow> 0 \<le> i \<and> i < int (length (Queue s))"

definition inP :: "pqueue \<Rightarrow> int \<Rightarrow> bool" where
  "inP s i \<longleftrightarrow> 0 \<le> i \<and> i < int (length (Positions s))"

definition getQ :: "pqueue \<Rightarrow> int \<Rightarrow> Elem" where
  "getQ s i = Queue s ! nat i"

definition getP :: "pqueue \<Rightarrow> int \<Rightarrow> int" where
  "getP s i = Positions s ! nat i"

definition setQ :: "pqueue \<Rightarrow> int \<Rightarrow> Elem \<Rightarrow> pqueue" where
  "setQ s i e = s\<lparr>Queue := (Queue s)[nat i := e]\<rparr>"

definition setP :: "pqueue \<Rightarrow> int \<Rightarrow> int \<Rightarrow> pqueue" where
  "setP s i p = s\<lparr>Positions := (Positions s)[nat i := p]\<rparr>"

subsection \<open>Index helpers\<close>

definition getLeftChildIndex :: "int \<Rightarrow> int" where
  "getLeftChildIndex position = (position * 2) + 1"

definition getRightChildIndex :: "int \<Rightarrow> int" where
  "getRightChildIndex position = (position * 2) + 2"

definition getParentIndex :: "int \<Rightarrow> int" where
  "getParentIndex position = (position - 1) sdiv 2"

subsection \<open>Constructor and Fill\<close>

text \<open>The loop \<open>for (v = 0; v < N; ++v) Positions[v] = -1\<close> of the constructor.\<close>

function PQueue_loop :: "int list \<Rightarrow> int \<Rightarrow> int \<Rightarrow> int list" where
  "PQueue_loop P N v = (if v < N then PQueue_loop (P[nat v := -1]) N (v + 1) else P)"
  by pat_completeness auto
termination
  by (relation "measure (\<lambda>(P, N, v). nat (N - v))") auto

text \<open>
  \<open>new int[N]\<close> and \<open>new Elem[N]\<close>: a negative \<open>N\<close> makes the new-expression throw
  \<open>std::bad_array_new_length\<close> (the code has no check of its own). The \<open>int\<close>s of a
  fresh array are indeterminate (the model takes 0; the loop overwrites each of
  them), the \<open>Elem\<close>s are default-constructed: \<open>V = -1\<close>, \<open>D = -1.0\<close>.
\<close>

definition PQueue :: "int \<Rightarrow> error + pqueue" where
  "PQueue N =
     (if N < 0 then Inl BadArrayNewLength
      else Inr \<lparr>Positions = PQueue_loop (replicate (nat N) 0) N 0,
                Queue = replicate (nat N) \<lparr>V = -1, D = -1\<rparr>,
                NumElements = 0,
                Capacity = N\<rparr>)"

text \<open>The loop of \<open>Fill\<close>, from vertex \<open>v\<close> on.\<close>

function Fill_loop :: "pqueue \<Rightarrow> real \<Rightarrow> int \<Rightarrow> (error + unit) \<times> pqueue" where
  "Fill_loop s distance v =
     (if v < Capacity s then
        (if \<not> (inQ s v \<and> inP s v) then (Inl OutOfBounds, s)
         else
           let s1 = setQ s v ((getQ s v)\<lparr>V := v\<rparr>);
               s2 = setQ s1 v ((getQ s1 v)\<lparr>D := distance\<rparr>);
               s3 = setP s2 v v
           in Fill_loop s3 distance (v + 1))
      else (Inr (), s))"
  by pat_completeness auto
termination
  by (relation "measure (\<lambda>(s, distance, v). nat (Capacity s - v))")
     (auto simp: setQ_def setP_def)

definition Fill :: "pqueue \<Rightarrow> real \<Rightarrow> (error + unit) \<times> pqueue" where
  "Fill s distance =
     (case Fill_loop s distance 0 of
        (Inl e, s1) \<Rightarrow> (Inl e, s1)
      | (Inr u, s1) \<Rightarrow> (Inr (), s1\<lparr>NumElements := Capacity s1\<rparr>))"

definition Empty :: "pqueue \<Rightarrow> bool" where
  "Empty s \<longleftrightarrow> NumElements s = 0"

subsection \<open>The private helpers\<close>

definition getSmallerChild :: "pqueue \<Rightarrow> int \<Rightarrow> error + int" where
  "getSmallerChild s position =
     (let leftIndex = (position * 2) + 1;
          rightIndex = (position * 2) + 2
      in if \<not> (inQ s leftIndex \<and> inQ s rightIndex) then Inl OutOfBounds
         else if D (getQ s leftIndex) = D (getQ s rightIndex) then Inr rightIndex
         else if D (getQ s leftIndex) > D (getQ s rightIndex) then Inr leftIndex
         else Inr rightIndex)"

definition inCorrectSpotwithRespectToParent :: "pqueue \<Rightarrow> int \<Rightarrow> error + bool" where
  "inCorrectSpotwithRespectToParent s position =
     (if position \<noteq> 0 then
        (if \<not> (inQ s position \<and> inQ s ((position - 1) sdiv 2)) then Inl OutOfBounds
         else if D (getQ s position) \<le> D (getQ s ((position - 1) sdiv 2)) then Inr False
         else Inr True)
      else Inr True)"

text \<open>
  The test \<open>Queue[2p+1].D != -1 || Queue[2p+2].D != -1\<close> reads the right child only
  when the left one holds \<open>-1\<close>.
\<close>

definition hasChild :: "pqueue \<Rightarrow> int \<Rightarrow> error + bool" where
  "hasChild s position =
     (if \<not> inQ s ((position * 2) + 1) then Inl OutOfBounds
      else if D (getQ s ((position * 2) + 1)) \<noteq> -1 then Inr True
      else if \<not> inQ s ((position * 2) + 2) then Inl OutOfBounds
      else Inr (D (getQ s ((position * 2) + 2)) \<noteq> -1))"

definition inCorrectSpotwithRespectToChild :: "pqueue \<Rightarrow> int \<Rightarrow> error + bool" where
  "inCorrectSpotwithRespectToChild s position =
     (case hasChild s position of
        Inl e \<Rightarrow> Inl e
      | Inr c \<Rightarrow>
          if c then
            (case getSmallerChild s position of
               Inl e \<Rightarrow> Inl e
             | Inr m \<Rightarrow>
                 if \<not> (inQ s position \<and> inQ s m) then Inl OutOfBounds
                 else if D (getQ s position) \<le> D (getQ s m) then Inr False
                 else Inr True)
          else Inr True)"

function shiftUp :: "pqueue \<Rightarrow> int \<Rightarrow> (error + unit) \<times> pqueue" where
  "shiftUp s position =
     (let parentIndex = getParentIndex position
      in if \<not> (inQ s position \<and> inQ s parentIndex) then (Inl OutOfBounds, s)
         else if D (getQ s position) \<ge> D (getQ s parentIndex) then (Inr (), s)
         else if D (getQ s position) < D (getQ s parentIndex) then
           (let temp = getQ s parentIndex;
                s1 = setQ s parentIndex (getQ s position)
            in if \<not> inP s1 (V (getQ s1 parentIndex)) then (Inl OutOfBounds, s1)
               else
                 let s2 = setP s1 (V (getQ s1 parentIndex)) parentIndex;
                     s3 = setQ s2 position temp
                 in if \<not> inP s3 (V (getQ s3 position)) then (Inl OutOfBounds, s3)
                    else
                      let s4 = setP s3 (V (getQ s3 position)) position
                      in shiftUp s4 parentIndex)
         else (Inr (), s))"
  by pat_completeness auto
termination
proof (relation "measure (\<lambda>(s, position). nat position)", goal_cases)
  case 1
  show ?case by simp
next
  case (2 s position parentIndex temp s1 s2 s3 s4)
  then have pos: "0 \<le> position" and ne: "position \<noteq> parentIndex"
    by (auto simp: inQ_def)
  from ne 2(1) have "position \<noteq> 0"
    by (auto simp: getParentIndex_def signed_divide_int_def)
  with pos have gt: "0 < position" by simp
  have "parentIndex < position"
  proof (cases "position = 1")
    case True
    then show ?thesis
      using 2(1) by (simp add: getParentIndex_def signed_divide_int_def)
  next
    case False
    with gt have "sgn (position - 1) = 1" by simp
    then show ?thesis
      using 2(1) gt by (simp add: getParentIndex_def signed_divide_int_def)
  qed
  with gt show ?case by simp
qed

function shiftDown :: "pqueue \<Rightarrow> int \<Rightarrow> (error + unit) \<times> pqueue" where
  "shiftDown s position =
     (let leftChildIndex = getLeftChildIndex position;
          rightChildIndex = getRightChildIndex position
      in if rightChildIndex \<ge> NumElements s \<and> leftChildIndex \<ge> NumElements s then (Inr (), s)
         else
           (case (if rightChildIndex \<ge> NumElements s then Inr leftChildIndex
                  else getSmallerChild s position) of
              Inl e \<Rightarrow> (Inl e, s)
            | Inr minIndex \<Rightarrow>
                if \<not> (inQ s position \<and> inQ s minIndex) then (Inl OutOfBounds, s)
                else if D (getQ s position) > D (getQ s minIndex) then
                  (let temp = getQ s minIndex;
                       s1 = setQ s minIndex (getQ s position)
                   in if \<not> inP s1 position then (Inl OutOfBounds, s1)
                      else
                        let s2 = setP s1 position minIndex;
                            s3 = setQ s2 position temp
                        in if \<not> inP s3 minIndex then (Inl OutOfBounds, s3)
                           else
                             let s4 = setP s3 minIndex position
                             in shiftDown s4 minIndex)
                else (Inr (), s)))"
  by pat_completeness auto
termination
proof (relation "measure (\<lambda>(s, position). nat (NumElements s - position))", goal_cases)
  case 1
  show ?case by simp
next
  case (2 s position leftChildIndex rightChildIndex minIndex temp s1 s2 s3 s4)
  then have pos: "0 \<le> position" by (simp add: inQ_def)
  have num: "NumElements s4 = NumElements s"
    using 2 by (simp add: setQ_def setP_def)
  have "position < minIndex \<and> minIndex < NumElements s"
    using 2 pos
    by (auto simp: getLeftChildIndex_def getRightChildIndex_def getSmallerChild_def Let_def
             split: if_splits)
  with num show ?case by simp
qed

definition swap :: "pqueue \<Rightarrow> int \<Rightarrow> (error + unit) \<times> pqueue" where
  "swap s position =
     (case inCorrectSpotwithRespectToParent s position of
        Inl e \<Rightarrow> (Inl e, s)
      | Inr okP \<Rightarrow>
          (case (if \<not> okP then shiftUp s position else (Inr (), s)) of
             (Inl e, s1) \<Rightarrow> (Inl e, s1)
           | (Inr u, s1) \<Rightarrow>
               (case inCorrectSpotwithRespectToChild s1 position of
                  Inl e \<Rightarrow> (Inl e, s1)
                | Inr okC \<Rightarrow> if \<not> okC then shiftDown s1 position else (Inr (), s1))))"

definition Insert :: "pqueue \<Rightarrow> int \<Rightarrow> real \<Rightarrow> (error + unit) \<times> pqueue" where
  "Insert s v d =
     (if v < 0 \<or> v \<ge> Capacity s then (Inl InvalidVertexInsert, s)
      else if \<not> inP s v then (Inl OutOfBounds, s)
      else if getP s v \<noteq> -1 then (Inl StillInQueue, s)
      else if \<not> inQ s (NumElements s) then (Inl OutOfBounds, s)
      else
        let temp = \<lparr>V = v, D = d\<rparr>;
            s1 = setQ s (NumElements s) temp;
            s2 = setP s1 v (NumElements s1);
            s3 = s2\<lparr>NumElements := NumElements s2 + 1\<rparr>
        in if \<not> (inQ s3 (NumElements s3 - 1) \<and> inQ s3 (getParentIndex (NumElements s3 - 1)))
           then (Inl OutOfBounds, s3)
           else if D (getQ s3 (NumElements s3 - 1))
                   < D (getQ s3 (getParentIndex (NumElements s3 - 1)))
           then shiftUp s3 (NumElements s3 - 1)
           else (Inr (), s3))"

definition Delete :: "pqueue \<Rightarrow> int \<Rightarrow> (error + int) \<times> pqueue" where
  "Delete s position =
     (if Empty s then (Inl DeleteEmptyQueue, s)
      else if position < 0 \<or> position \<ge> NumElements s then (Inl DeleteInvalidPosition, s)
      else if \<not> inQ s position then (Inl OutOfBounds, s)
      else
        let v = V (getQ s position)
        in if position = NumElements s - 1 then
             (let s1 = setQ s position ((getQ s position)\<lparr>D := -1\<rparr>);
                  s2 = setQ s1 position ((getQ s1 position)\<lparr>V := -1\<rparr>)
              in if \<not> inP s2 v then (Inl OutOfBounds, s2)
                 else
                   let s3 = setP s2 v (-1);
                       s4 = s3\<lparr>NumElements := NumElements s3 - 1\<rparr>
                   in (Inr v, s4))
           else if NumElements s = 1 then
             (let s1 = s\<lparr>NumElements := NumElements s - 1\<rparr>
              in if \<not> (inP s1 v \<and> inQ s1 (NumElements s1)) then (Inl OutOfBounds, s1)
                 else
                   let s2 = setP s1 v (-1);
                       s3 = setQ s2 (NumElements s2) ((getQ s2 (NumElements s2))\<lparr>D := -1\<rparr>);
                       s4 = setQ s3 (NumElements s3) ((getQ s3 (NumElements s3))\<lparr>V := -1\<rparr>)
                   in (Inr v, s4))
           else
             (let s1 = s\<lparr>NumElements := NumElements s - 1\<rparr>
              in if \<not> inQ s1 (NumElements s1) then (Inl OutOfBounds, s1)
                 else
                   let s2 = setQ s1 position (getQ s1 (NumElements s1))
                   in if \<not> (inP s2 (V (getQ s2 position)) \<and> inP s2 v) then (Inl OutOfBounds, s2)
                      else
                        let s3 = setP s2 (V (getQ s2 position)) position;
                            s4 = setP s3 v (-1);
                            s5 = setQ s4 (NumElements s4) ((getQ s4 (NumElements s4))\<lparr>V := -1\<rparr>);
                            s6 = setQ s5 (NumElements s5) ((getQ s5 (NumElements s5))\<lparr>D := -1\<rparr>)
                        in (case inCorrectSpotwithRespectToParent s6 position of
                              Inl e \<Rightarrow> (Inl e, s6)
                            | Inr okP \<Rightarrow>
                                (case (if okP then inCorrectSpotwithRespectToChild s6 position
                                       else Inr False) of
                                   Inl e \<Rightarrow> (Inl e, s6)
                                 | Inr ok \<Rightarrow>
                                     if ok then (Inr v, s6)
                                     else
                                       (case swap s6 position of
                                          (Inl e, s7) \<Rightarrow> (Inl e, s7)
                                        | (Inr u, s7) \<Rightarrow> (Inr v, s7))))))"

subsection \<open>The public operations\<close>

definition Push :: "pqueue \<Rightarrow> int \<Rightarrow> real \<Rightarrow> (error + unit) \<times> pqueue" where
  "Push s vertex distance =
     (if vertex < 0 \<or> vertex \<ge> Capacity s then (Inl InvalidVertexPush, s)
      else if \<not> inP s vertex then (Inl OutOfBounds, s)
      else
        let position = getP s vertex
        in if position \<ge> 0 then
             (case Delete s position of
                (Inl e, s1) \<Rightarrow> (Inl e, s1)
              | (Inr deletedV, s1) \<Rightarrow>
                  if deletedV \<noteq> vertex then (Inl VertexMismatch, s1)
                  else if \<not> inP s1 vertex then (Inl OutOfBounds, s1)
                  else if getP s1 vertex \<noteq> -1 then (Inl PositionNotDeleted, s1)
                  else Insert s1 vertex distance)
           else Insert s vertex distance)"

definition PopMin :: "pqueue \<Rightarrow> (error + int) \<times> pqueue" where
  "PopMin s = (if Empty s then (Inl StackEmpty, s) else Delete s 0)"


subsection \<open>Sequences of operations\<close>

text \<open>
  The two loops of \<open>StressTest1\<close> (main.cpp): push the pairs of a list in order, and
  pop \<open>n\<close> times, collecting the popped vertices. Both stop at the first exception.
\<close>

fun pushAll :: "pqueue \<Rightarrow> (int \<times> real) list \<Rightarrow> (error + unit) \<times> pqueue" where
  "pushAll s [] = (Inr (), s)"
| "pushAll s ((v, d) # vds) =
     (case Push s v d of
        (Inl e, s1) \<Rightarrow> (Inl e, s1)
      | (Inr u, s1) \<Rightarrow> pushAll s1 vds)"

fun popAll :: "pqueue \<Rightarrow> nat \<Rightarrow> (error + int list) \<times> pqueue" where
  "popAll s 0 = (Inr [], s)"
| "popAll s (Suc n) =
     (case PopMin s of
        (Inl e, s1) \<Rightarrow> (Inl e, s1)
      | (Inr v, s1) \<Rightarrow>
          (case popAll s1 n of
             (Inl e, s2) \<Rightarrow> (Inl e, s2)
           | (Inr vs, s2) \<Rightarrow> (Inr (v # vs), s2)))"

text \<open>
  The states a caller can reach: a constructed queue, and whatever a public operation
  that returned normally leaves behind (\<open>Empty\<close> changes nothing). Returning normally
  means the outcome \<open>Inr\<close>: no exception was thrown and no array was accessed outside
  its allocation.
\<close>

inductive reachable :: "pqueue \<Rightarrow> bool" where
  reach_PQueue: "PQueue N = Inr s \<Longrightarrow> reachable s"
| reach_Fill: "reachable s \<Longrightarrow> Fill s d = (Inr u, s') \<Longrightarrow> reachable s'"
| reach_Push: "reachable s \<Longrightarrow> Push s v d = (Inr u, s') \<Longrightarrow> reachable s'"
| reach_PopMin: "reachable s \<Longrightarrow> PopMin s = (Inr v, s') \<Longrightarrow> reachable s'"

subsection \<open>The properties of the specification\<close>

text \<open>The occupied slots \<open>0 .. NumElements - 1\<close> of the heap array.\<close>

definition present :: "pqueue \<Rightarrow> Elem list" where
  "present s = take (nat (NumElements s)) (Queue s)"

text \<open>Vertex \<open>v\<close> is present and no present element has a smaller distance.\<close>

definition min_present :: "pqueue \<Rightarrow> int \<Rightarrow> bool" where
  "min_present s v \<longleftrightarrow>
     list_ex (\<lambda>e. V e = v \<and> list_all (\<lambda>e'. D e \<le> D e') (present s)) (present s)"

text \<open>I1: every occupied slot but the root holds a distance not below its parent's.\<close>

definition heap_order :: "pqueue \<Rightarrow> bool" where
  "heap_order s \<longleftrightarrow>
     list_all (\<lambda>i. D (getQ s ((int i - 1) div 2)) \<le> D (getQ s (int i)))
       [1 ..< nat (NumElements s)]"

text \<open>
  I2: a position entry other than \<open>-1\<close> names an occupied slot that holds the vertex,
  and every occupied slot holds a vertex whose position entry is that slot.
\<close>

definition bijection :: "pqueue \<Rightarrow> bool" where
  "bijection s \<longleftrightarrow>
     list_all (\<lambda>v. getP s (int v) = -1 \<or>
                    (0 \<le> getP s (int v) \<and> getP s (int v) < NumElements s \<and>
                     V (getQ s (getP s (int v))) = int v))
       [0 ..< length (Positions s)] \<and>
     list_all (\<lambda>i. inP s (V (getQ s (int i))) \<and> getP s (V (getQ s (int i))) = int i)
       [0 ..< nat (NumElements s)]"

text \<open>
  What the proofs below carry through every reachable state: the arrays have the
  allocated length, the count is within the capacity, the present vertices are
  in range and pairwise different, and each has a position entry that is not negative.
\<close>

definition consistent :: "pqueue \<Rightarrow> bool" where
  "consistent s \<longleftrightarrow>
     length (Queue s) = nat (Capacity s) \<and> length (Positions s) = nat (Capacity s) \<and>
     0 \<le> NumElements s \<and> NumElements s \<le> Capacity s \<and>
     distinct (map V (present s)) \<and>
     (\<forall>e \<in> set (present s). 0 \<le> V e \<and> V e < Capacity s \<and> 0 \<le> getP s (V e))"

text \<open>
  What a sift leaves as it was: the elements in the occupied slots up to their order,
  the count, the capacity and the array lengths; position entries that were not
  negative stay so.
\<close>

definition keeps_nonneg :: "int list \<Rightarrow> int list \<Rightarrow> bool" where
  "keeps_nonneg P P' \<longleftrightarrow>
     length P' = length P \<and> (\<forall>j < length P. 0 \<le> P ! j \<longrightarrow> 0 \<le> P' ! j)"

definition rearranged :: "pqueue \<Rightarrow> pqueue \<Rightarrow> bool" where
  "rearranged s s' \<longleftrightarrow>
     mset (present s') = mset (present s) \<and> NumElements s' = NumElements s \<and>
     Capacity s' = Capacity s \<and> length (Queue s') = length (Queue s) \<and>
     keeps_nonneg (Positions s) (Positions s')"

text \<open>
  The converse bookkeeping, which holds as long as no sift-down has swapped: a
  position entry that is not negative belongs to a present vertex.
\<close>

definition tight :: "pqueue \<Rightarrow> bool" where
  "tight s \<longleftrightarrow>
     (\<forall>j. 0 \<le> j \<and> j < Capacity s \<and> 0 \<le> getP s j \<longrightarrow> j \<in> V ` set (present s))"

subsection \<open>Recursion depth\<close>

text \<open>
  The recursions of the queue's operations again, with a bound on the number of
  nested calls: \<open>None\<close> when the bound is used up before the base case is reached.
\<close>

fun Fill_loop_fuel :: "nat \<Rightarrow> pqueue \<Rightarrow> real \<Rightarrow> int \<Rightarrow> ((error + unit) \<times> pqueue) option" where
  "Fill_loop_fuel 0 s distance v = None"
| "Fill_loop_fuel (Suc n) s distance v =
     (if v < Capacity s then
        (if \<not> (inQ s v \<and> inP s v) then Some (Inl OutOfBounds, s)
         else
           let s1 = setQ s v ((getQ s v)\<lparr>V := v\<rparr>);
               s2 = setQ s1 v ((getQ s1 v)\<lparr>D := distance\<rparr>);
               s3 = setP s2 v v
           in Fill_loop_fuel n s3 distance (v + 1))
      else Some (Inr (), s))"

fun shiftUp_fuel :: "nat \<Rightarrow> pqueue \<Rightarrow> int \<Rightarrow> ((error + unit) \<times> pqueue) option" where
  "shiftUp_fuel 0 s position = None"
| "shiftUp_fuel (Suc n) s position =
     (let parentIndex = getParentIndex position
      in if \<not> (inQ s position \<and> inQ s parentIndex) then Some (Inl OutOfBounds, s)
         else if D (getQ s position) \<ge> D (getQ s parentIndex) then Some (Inr (), s)
         else if D (getQ s position) < D (getQ s parentIndex) then
           (let temp = getQ s parentIndex;
                s1 = setQ s parentIndex (getQ s position)
            in if \<not> inP s1 (V (getQ s1 parentIndex)) then Some (Inl OutOfBounds, s1)
               else
                 let s2 = setP s1 (V (getQ s1 parentIndex)) parentIndex;
                     s3 = setQ s2 position temp
                 in if \<not> inP s3 (V (getQ s3 position)) then Some (Inl OutOfBounds, s3)
                    else
                      let s4 = setP s3 (V (getQ s3 position)) position
                      in shiftUp_fuel n s4 parentIndex)
         else Some (Inr (), s))"

fun shiftDown_fuel :: "nat \<Rightarrow> pqueue \<Rightarrow> int \<Rightarrow> ((error + unit) \<times> pqueue) option" where
  "shiftDown_fuel 0 s position = None"
| "shiftDown_fuel (Suc n) s position =
     (let leftChildIndex = getLeftChildIndex position;
          rightChildIndex = getRightChildIndex position
      in if rightChildIndex \<ge> NumElements s \<and> leftChildIndex \<ge> NumElements s
         then Some (Inr (), s)
         else
           (case (if rightChildIndex \<ge> NumElements s then Inr leftChildIndex
                  else getSmallerChild s position) of
              Inl e \<Rightarrow> Some (Inl e, s)
            | Inr minIndex \<Rightarrow>
                if \<not> (inQ s position \<and> inQ s minIndex) then Some (Inl OutOfBounds, s)
                else if D (getQ s position) > D (getQ s minIndex) then
                  (let temp = getQ s minIndex;
                       s1 = setQ s minIndex (getQ s position)
                   in if \<not> inP s1 position then Some (Inl OutOfBounds, s1)
                      else
                        let s2 = setP s1 position minIndex;
                            s3 = setQ s2 position temp
                        in if \<not> inP s3 minIndex then Some (Inl OutOfBounds, s3)
                           else
                             let s4 = setP s3 minIndex position
                             in shiftDown_fuel n s4 minIndex)
                else Some (Inr (), s)))"

text \<open>Shorthands for writing down concrete states.\<close>

abbreviation el :: "int \<Rightarrow> real \<Rightarrow> Elem" where
  "el v d \<equiv> \<lparr>V = v, D = d\<rparr>"

abbreviation pq :: "int list \<Rightarrow> Elem list \<Rightarrow> int \<Rightarrow> int \<Rightarrow> pqueue" where
  "pq P Q n c \<equiv> \<lparr>Positions = P, Queue = Q, NumElements = n, Capacity = c\<rparr>"

declare PQueue_loop.simps [simp del] Fill_loop.simps [simp del]
  shiftUp.simps [simp del] shiftDown.simps [simp del]
  shiftUp_fuel.simps(2) [simp del] shiftDown_fuel.simps(2) [simp del]
  Fill_loop_fuel.simps(2) [simp del]

section \<open>Construction and range errors\<close>

lemma PQueue_loop_from:
  "0 \<le> v \<Longrightarrow> v \<le> N \<Longrightarrow> length P = nat N \<Longrightarrow>
   PQueue_loop P N v = take (nat v) P @ replicate (nat (N - v)) (-1)"
proof (induction P N v rule: PQueue_loop.induct)
  case (1 P N v)
  show ?case
  proof (cases "v < N")
    case True
    have lt: "nat v < length P" using 1 True by simp
    have "PQueue_loop P N v = PQueue_loop (P[nat v := -1]) N (v + 1)"
      using True by (subst PQueue_loop.simps) simp
    also have "\<dots> = take (nat (v + 1)) (P[nat v := -1]) @ replicate (nat (N - (v + 1))) (-1)"
      using 1 True by simp
    also have "nat (v + 1) = Suc (nat v)" using 1 by simp
    also have "take (Suc (nat v)) (P[nat v := -1]) = take (nat v) P @ [-1]"
      using lt by (simp add: take_Suc_conv_app_nth)
    also have "(take (nat v) P @ [-1]) @ replicate (nat (N - (v + 1))) (-1)
             = take (nat v) P @ replicate (Suc (nat (N - (v + 1)))) (-1)"
      by simp
    also have "Suc (nat (N - (v + 1))) = nat (N - v)" using True by simp
    finally show ?thesis .
  next
    case False
    then show ?thesis using 1 by (subst PQueue_loop.simps) simp
  qed
qed

lemma PQueue_Inr:
  "0 \<le> N \<Longrightarrow>
   PQueue N = Inr (pq (replicate (nat N) (-1)) (replicate (nat N) (el (-1) (-1))) 0 N)"
  by (simp add: PQueue_def PQueue_loop_from)

text \<open>
  C6. The constructor fails exactly for a negative capacity; for \<open>N \<ge> 0\<close> it returns
  a queue of capacity \<open>N\<close> with no element (\<open>NumElements = 0\<close>, \<open>Empty\<close> holds) whose
  \<open>N\<close> position entries are all \<open>-1\<close> and whose \<open>N\<close> heap slots are all default
  elements.
\<close>

theorem PQueue_fails_iff_negative:
  "((\<exists>e. PQueue N = Inl e) \<longleftrightarrow> N < 0) \<and>
   (0 \<le> N \<longrightarrow>
      (\<exists>s. PQueue N = Inr s \<and> NumElements s = 0 \<and> Empty s \<and> Capacity s = N \<and>
           Positions s = replicate (nat N) (-1) \<and>
           Queue s = replicate (nat N) (el (-1) (-1))))"
proof (cases "N < 0")
  case True
  then show ?thesis by (simp add: PQueue_def)
next
  case False
  then have "0 \<le> N" by simp
  from PQueue_Inr [OF this] show ?thesis
    using False by (simp add: Empty_def)
qed

theorem PQueue_fails_iff_negative_witness:
  "(\<exists>s. PQueue 3 = Inr s \<and> NumElements s = 0 \<and> Empty s \<and> Capacity s = 3 \<and>
        Positions s = [-1, -1, -1] \<and>
        Queue s = [el (-1) (-1), el (-1) (-1), el (-1) (-1)]) \<and>
   (\<exists>e. PQueue (-1) = Inl e)"
  using PQueue_fails_iff_negative [of 3] PQueue_fails_iff_negative [of "-1"]
  by (simp add: numeral_3_eq_3)

text \<open>
  C7. \<open>Push\<close> with a vertex outside \<open>0 .. Capacity - 1\<close> throws the invalid-vertex
  exception of \<open>Push\<close> and leaves the whole object (both arrays, the count, the
  capacity) as it was. This holds in every state, reachable or not.
\<close>

theorem Push_out_of_range_unchanged:
  "vertex < 0 \<or> Capacity s \<le> vertex \<Longrightarrow> Push s vertex distance = (Inl InvalidVertexPush, s)"
  by (simp add: Push_def)

theorem Push_out_of_range_unchanged_witness:
  "PQueue 5 = Inr (pq [-1, -1, -1, -1, -1]
                    [el (-1) (-1), el (-1) (-1), el (-1) (-1), el (-1) (-1), el (-1) (-1)] 0 5) \<and>
   Push (pq [-1, -1, -1, -1, -1]
          [el (-1) (-1), el (-1) (-1), el (-1) (-1), el (-1) (-1), el (-1) (-1)] 0 5) 5 1
   = (Inl InvalidVertexPush,
      pq [-1, -1, -1, -1, -1]
        [el (-1) (-1), el (-1) (-1), el (-1) (-1), el (-1) (-1), el (-1) (-1)] 0 5)"
proof -
  have "PQueue 5 = Inr (pq [-1, -1, -1, -1, -1]
                    [el (-1) (-1), el (-1) (-1), el (-1) (-1), el (-1) (-1), el (-1) (-1)] 0 5)"
    by code_simp
  moreover have "Push (pq [-1, -1, -1, -1, -1]
          [el (-1) (-1), el (-1) (-1), el (-1) (-1), el (-1) (-1), el (-1) (-1)] 0 5) 5 1
   = (Inl InvalidVertexPush,
      pq [-1, -1, -1, -1, -1]
        [el (-1) (-1), el (-1) (-1), el (-1) (-1), el (-1) (-1), el (-1) (-1)] 0 5)"
    by (rule Push_out_of_range_unchanged) simp
  ultimately show ?thesis by simp
qed


section \<open>Termination\<close>

lemma NumElements_setQ [simp]: "NumElements (setQ s i e) = NumElements s"
  by (simp add: setQ_def)

lemma NumElements_setP [simp]: "NumElements (setP s i p) = NumElements s"
  by (simp add: setP_def)

lemma Capacity_setQ [simp]: "Capacity (setQ s i e) = Capacity s"
  by (simp add: setQ_def)

lemma Capacity_setP [simp]: "Capacity (setP s i p) = Capacity s"
  by (simp add: setP_def)

lemma getParentIndex_0: "getParentIndex 0 = 0"
  by (simp add: getParentIndex_def signed_divide_int_def)

lemma getParentIndex_pos: "0 < p \<Longrightarrow> getParentIndex p = (p - 1) div 2"
  by (cases "p = 1") (simp_all add: getParentIndex_def signed_divide_int_def)

lemma getParentIndex_less: "0 < p \<Longrightarrow> 0 \<le> getParentIndex p \<and> getParentIndex p < p"
  by (simp add: getParentIndex_pos)

text \<open>A sift-up from slot \<open>position\<close> nests at most \<open>position\<close> further calls.\<close>

lemma shiftUp_fuel_enough:
  "nat position < n \<Longrightarrow> shiftUp_fuel n s position = Some (shiftUp s position)"
proof (induction s position arbitrary: n rule: shiftUp.induct)
  case (1 s position)
  from "1.prems" obtain m where n: "n = Suc m" by (cases n) auto
  show ?case
  proof (cases "inQ s position \<and> inQ s (getParentIndex position) \<and>
                D (getQ s position) < D (getQ s (getParentIndex position))")
    case False
    then show ?thesis
      unfolding n by (subst shiftUp.simps, subst shiftUp_fuel.simps) (auto simp: Let_def)
  next
    case True
    then have "position \<noteq> 0" by (auto simp: getParentIndex_0)
    with True have gt: "0 < position" by (simp add: inQ_def)
    then have "nat (getParentIndex position) < m"
      using getParentIndex_less [OF gt] "1.prems" n by linarith
    note IH = "1.IH" [OF refl _ _ _ refl refl _ refl refl _ refl, OF _ _ _ _ _ this]
    show ?thesis
      unfolding n using True
      by (subst shiftUp.simps, subst shiftUp_fuel.simps) (auto simp: Let_def IH)
  qed
qed

text \<open>The child that a sift-down step moves to lies below the slot and inside the heap.\<close>

lemma minIndex_bounds:
  assumes "\<not> (getRightChildIndex position \<ge> NumElements s \<and>
              getLeftChildIndex position \<ge> NumElements s)"
    and "(if getRightChildIndex position \<ge> NumElements s then Inr (getLeftChildIndex position)
          else getSmallerChild s position) = Inr minIndex"
    and "0 \<le> position"
  shows "position < minIndex \<and> minIndex < NumElements s"
  using assms
  by (auto simp: getLeftChildIndex_def getRightChildIndex_def getSmallerChild_def Let_def
           split: if_splits)

lemma shiftDown_fuel_enough:
  "nat (NumElements s - position) < n \<Longrightarrow>
   shiftDown_fuel n s position = Some (shiftDown s position)"
proof (induction s position arbitrary: n rule: shiftDown.induct)
  case (1 s position)
  from "1.prems" obtain m where n: "n = Suc m" by (cases n) auto
  have step: "shiftDown_fuel m s4 minIndex = Some (shiftDown s4 minIndex)"
    if "\<not> (getRightChildIndex position \<ge> NumElements s \<and>
            getLeftChildIndex position \<ge> NumElements s)"
      and "(if getRightChildIndex position \<ge> NumElements s
            then Inr (getLeftChildIndex position)
            else getSmallerChild s position) = Inr minIndex"
      and "inQ s position \<and> inQ s minIndex"
      and "D (getQ s position) > D (getQ s minIndex)"
      and "inP (setQ s minIndex (getQ s position)) position"
      and "inP (setQ (setP (setQ s minIndex (getQ s position)) position minIndex)
                 position (getQ s minIndex)) minIndex"
      and "s4 = setP (setQ (setP (setQ s minIndex (getQ s position)) position minIndex)
                        position (getQ s minIndex)) minIndex position"
    for minIndex s4
  proof -
    from that(3) have "0 \<le> position" by (simp add: inQ_def)
    from minIndex_bounds [OF that(1,2) this] "1.prems" n
    have "nat (NumElements s4 - minIndex) < m" unfolding that(7) by simp linarith
    then show ?thesis
      using that by (intro "1.IH" [OF refl refl _ _ _ _ refl refl _ refl refl _ _]) simp_all
  qed
  show ?case
    unfolding n
    by (subst shiftDown.simps, subst shiftDown_fuel.simps)
       (auto simp: Let_def step split: sum.splits)
qed

lemma Fill_loop_fuel_enough:
  "nat (Capacity s - v) < n \<Longrightarrow>
   Fill_loop_fuel n s distance v = Some (Fill_loop s distance v)"
proof (induction s distance v arbitrary: n rule: Fill_loop.induct)
  case (1 s distance v)
  from "1.prems" obtain m where n: "n = Suc m" by (cases n) auto
  show ?case
  proof (cases "v < Capacity s \<and> inQ s v \<and> inP s v")
    case False
    then show ?thesis
      unfolding n by (subst Fill_loop.simps, subst Fill_loop_fuel.simps) auto
  next
    case True
    then have "nat (Capacity s - (v + 1)) < m"
      using "1.prems" n by linarith
    then have "Fill_loop_fuel m
                 (setP (setQ (setQ s v ((getQ s v)\<lparr>V := v\<rparr>)) v
                          ((getQ (setQ s v ((getQ s v)\<lparr>V := v\<rparr>)) v)\<lparr>D := distance\<rparr>)) v v)
                 distance (v + 1)
             = Some (Fill_loop
                 (setP (setQ (setQ s v ((getQ s v)\<lparr>V := v\<rparr>)) v
                          ((getQ (setQ s v ((getQ s v)\<lparr>V := v\<rparr>)) v)\<lparr>D := distance\<rparr>)) v v)
                 distance (v + 1))"
      using True by (intro "1.IH" [OF _ _ refl refl refl]) simp_all
    then show ?thesis
      unfolding n using True
      by (subst Fill_loop.simps, subst Fill_loop_fuel.simps) (simp add: Let_def)
  qed
qed

text \<open>
  C9. The recursive procedures of the queue reach their base case from every state
  and every slot: a sift-up from slot \<open>position\<close> returns within \<open>position\<close> nested
  calls (at the root slot 0 it returns at once, with no nested call), a sift-down
  within \<open>NumElements - position\<close> nested calls, and the loop of \<open>Fill\<close> within
  \<open>Capacity - v\<close> iterations. \<open>Push\<close>, \<open>PopMin\<close>, \<open>Fill\<close> and \<open>Empty\<close> call these
  procedures a fixed number of times and do not recurse or loop otherwise.
\<close>

theorem recursions_reach_base_case:
  "shiftUp_fuel (Suc (nat position)) s position = Some (shiftUp s position) \<and>
   shiftUp_fuel (Suc 0) s 0 = Some (shiftUp s 0) \<and>
   shiftDown_fuel (Suc (nat (NumElements s - position))) s position
     = Some (shiftDown s position) \<and>
   Fill_loop_fuel (Suc (nat (Capacity s - v))) s distance v
     = Some (Fill_loop s distance v)"
  using shiftUp_fuel_enough [of position "Suc (nat position)" s]
        shiftUp_fuel_enough [of 0 "Suc 0" s]
        shiftDown_fuel_enough [of s position "Suc (nat (NumElements s - position))"]
        Fill_loop_fuel_enough [of s v "Suc (nat (Capacity s - v))" distance]
  by simp


section \<open>Runs on which the code departs from the specification\<close>

text \<open>
  C1 (the code departs from it). Capacity 3; \<open>Push(0, 1)\<close>, \<open>Push(1, 2)\<close>,
  \<open>Push(2, 3)\<close>. The first \<open>PopMin\<close> returns vertex 0 and moves the last element
  \<open>(2, 3)\<close> to the root; \<open>inCorrectSpotwithRespectToChild\<close> answers "in the correct
  spot" because 3 is not \<open>\<le>\<close> the child's 2, so nothing is sifted down. The second
  \<open>PopMin\<close> then returns vertex 2, whose distance 3 is not the minimum: vertex 1 is
  present with distance 2.
\<close>

theorem PopMin_returns_non_minimum:
  "PQueue 3 = Inr (pq [-1, -1, -1] [el (-1) (-1), el (-1) (-1), el (-1) (-1)] 0 3) \<and>
   pushAll (pq [-1, -1, -1] [el (-1) (-1), el (-1) (-1), el (-1) (-1)] 0 3)
       [(0, 1), (1, 2), (2, 3)]
     = (Inr (), pq [0, 1, 2] [el 0 1, el 1 2, el 2 3] 3 3) \<and>
   PopMin (pq [0, 1, 2] [el 0 1, el 1 2, el 2 3] 3 3)
     = (Inr 0, pq [-1, 1, 0] [el 2 3, el 1 2, el (-1) (-1)] 2 3) \<and>
   present (pq [-1, 1, 0] [el 2 3, el 1 2, el (-1) (-1)] 2 3) = [el 2 3, el 1 2] \<and>
   PopMin (pq [-1, 1, 0] [el 2 3, el 1 2, el (-1) (-1)] 2 3)
     = (Inr 2, pq [-1, 0, -1] [el 1 2, el (-1) (-1), el (-1) (-1)] 1 3) \<and>
   \<not> min_present (pq [-1, 1, 0] [el 2 3, el 1 2, el (-1) (-1)] 2 3) 2"
  by code_simp

text \<open>
  C2 (the code departs from it). On the same run the heap order I1 holds after the
  three pushes and is broken by the first \<open>PopMin\<close>: slot 1 then holds distance 2
  below its parent slot 0 with distance 3.
\<close>

theorem heap_order_broken_by_PopMin:
  "pushAll (pq [-1, -1, -1] [el (-1) (-1), el (-1) (-1), el (-1) (-1)] 0 3)
       [(0, 1), (1, 2), (2, 3)]
     = (Inr (), pq [0, 1, 2] [el 0 1, el 1 2, el 2 3] 3 3) \<and>
   heap_order (pq [0, 1, 2] [el 0 1, el 1 2, el 2 3] 3 3) \<and>
   PopMin (pq [0, 1, 2] [el 0 1, el 1 2, el 2 3] 3 3)
     = (Inr 0, pq [-1, 1, 0] [el 2 3, el 1 2, el (-1) (-1)] 2 3) \<and>
   \<not> heap_order (pq [-1, 1, 0] [el 2 3, el 1 2, el (-1) (-1)] 2 3)"
  by code_simp

text \<open>
  C3 (the code departs from it). Capacity 3; \<open>Push(0, -5)\<close>, \<open>Push(1, -3)\<close>,
  \<open>Push(2, -2)\<close>; \<open>PopMin\<close> returns vertex 0. Its sift-down swaps slots 0 and 1 and
  writes \<open>Positions[0] = 1\<close> and \<open>Positions[1] = 0\<close>: the slot numbers are used as
  vertex numbers. Afterwards the removed vertex 0 has the position entry 1, and
  vertex 2, which is in slot 1, has the position entry 0.
\<close>

theorem bijection_broken_by_shiftDown:
  "PQueue 3 = Inr (pq [-1, -1, -1] [el (-1) (-1), el (-1) (-1), el (-1) (-1)] 0 3) \<and>
   pushAll (pq [-1, -1, -1] [el (-1) (-1), el (-1) (-1), el (-1) (-1)] 0 3)
       [(0, -5), (1, -3), (2, -2)]
     = (Inr (), pq [0, 1, 2] [el 0 (-5), el 1 (-3), el 2 (-2)] 3 3) \<and>
   bijection (pq [0, 1, 2] [el 0 (-5), el 1 (-3), el 2 (-2)] 3 3) \<and>
   PopMin (pq [0, 1, 2] [el 0 (-5), el 1 (-3), el 2 (-2)] 3 3)
     = (Inr 0, pq [1, 0, 0] [el 1 (-3), el 2 (-2), el (-1) (-1)] 2 3) \<and>
   \<not> bijection (pq [1, 0, 0] [el 1 (-3), el 2 (-2), el (-1) (-1)] 2 3)"
  by code_simp

text \<open>
  C4 (the code departs from it). \<open>N = 4\<close> with the distances 10, 9, 8, 7 of
  \<open>StressTest1\<close>: the four pops return the vertices 3, 0, 1, 2 and not 3, 2, 1, 0.
\<close>

theorem decreasing_pushes_pop_out_of_order:
  "PQueue 4 = Inr (pq [-1, -1, -1, -1]
                    [el (-1) (-1), el (-1) (-1), el (-1) (-1), el (-1) (-1)] 0 4) \<and>
   pushAll (pq [-1, -1, -1, -1]
              [el (-1) (-1), el (-1) (-1), el (-1) (-1), el (-1) (-1)] 0 4)
       [(0, 10), (1, 9), (2, 8), (3, 7)]
     = (Inr (), pq [3, 2, 1, 0] [el 3 7, el 2 8, el 1 9, el 0 10] 4 4) \<and>
   popAll (pq [3, 2, 1, 0] [el 3 7, el 2 8, el 1 9, el 0 10] 4 4) 4
     = (Inr [3, 0, 1, 2],
        pq [-1, -1, -1, -1] [el (-1) (-1), el (-1) (-1), el (-1) (-1), el (-1) (-1)] 0 4)"
  by code_simp

text \<open>
  C10 (the code departs from it). Capacity 2; \<open>Push(0, 1)\<close>, \<open>Push(1, 2)\<close>;
  \<open>PopMin\<close>. \<open>Delete(0)\<close> moves \<open>(1, 2)\<close> to slot 0, clears slot 1, and
  \<open>inCorrectSpotwithRespectToChild(0)\<close> reads \<open>Queue[1].D\<close>, finds \<open>-1\<close>, and reads
  \<open>Queue[2].D\<close>: one past the end of the array of 2 elements.
\<close>

theorem child_read_past_the_end:
  "PQueue 2 = Inr (pq [-1, -1] [el (-1) (-1), el (-1) (-1)] 0 2) \<and>
   pushAll (pq [-1, -1] [el (-1) (-1), el (-1) (-1)] 0 2) [(0, 1), (1, 2)]
     = (Inr (), pq [0, 1] [el 0 1, el 1 2] 2 2) \<and>
   PopMin (pq [0, 1] [el 0 1, el 1 2] 2 2)
     = (Inl OutOfBounds, pq [-1, 0] [el 1 2, el (-1) (-1)] 1 2) \<and>
   inQ (pq [-1, 0] [el 1 2, el (-1) (-1)] 1 2) (0 * 2 + 1) \<and>
   D (getQ (pq [-1, 0] [el 1 2, el (-1) (-1)] 1 2) (0 * 2 + 1)) = -1 \<and>
   \<not> inQ (pq [-1, 0] [el 1 2, el (-1) (-1)] 1 2) (0 * 2 + 2) \<and>
   inCorrectSpotwithRespectToChild (pq [-1, 0] [el 1 2, el (-1) (-1)] 1 2) 0
     = Inl OutOfBounds"
  by code_simp


section \<open>What every reachable state satisfies\<close>

subsection \<open>Sifting rearranges the occupied slots\<close>

lemma Queue_setQ [simp]: "Queue (setQ s i e) = (Queue s)[nat i := e]"
  by (simp add: setQ_def)
lemma Queue_setP [simp]: "Queue (setP s i p) = Queue s"
  by (simp add: setP_def)
lemma Positions_setQ [simp]: "Positions (setQ s i e) = Positions s"
  by (simp add: setQ_def)
lemma Positions_setP [simp]: "Positions (setP s i p) = (Positions s)[nat i := p]"
  by (simp add: setP_def)

lemma keeps_nonneg_refl: "keeps_nonneg P P"
  by (simp add: keeps_nonneg_def)

lemma keeps_nonneg_trans: "keeps_nonneg P P' \<Longrightarrow> keeps_nonneg P' P'' \<Longrightarrow> keeps_nonneg P P''"
  by (simp add: keeps_nonneg_def)

lemma keeps_nonneg_update: "0 \<le> p \<Longrightarrow> keeps_nonneg P (P[i := p])"
proof -
  assume p: "0 \<le> p"
  have "0 \<le> P[i := p] ! j" if "j < length P" "0 \<le> P ! j" for j
    using that p by (cases "i = j") simp_all
  then show ?thesis by (simp add: keeps_nonneg_def)
qed

lemma nth_in_take: "i < n \<Longrightarrow> n \<le> length xs \<Longrightarrow> xs ! i \<in> set (take n xs)"
  using nth_mem [of i "take n xs"] by simp

lemma rearranged_refl: "rearranged s s"
  by (simp add: rearranged_def keeps_nonneg_refl)

lemma rearranged_trans: "rearranged s s' \<Longrightarrow> rearranged s' s'' \<Longrightarrow> rearranged s s''"
  by (auto simp: rearranged_def intro: keeps_nonneg_trans)

lemma rearranged_consistent:
  assumes "consistent s" "rearranged s s'"
  shows "consistent s'"
proof -
  from assms(2) have m: "mset (present s') = mset (present s)"
    and k: "keeps_nonneg (Positions s) (Positions s')"
    and eqs: "NumElements s' = NumElements s" "Capacity s' = Capacity s"
      "length (Queue s') = length (Queue s)"
    by (simp_all add: rearranged_def)
  from m have "mset (map V (present s')) = mset (map V (present s))" by simp
  then have d: "distinct (map V (present s')) \<longleftrightarrow> distinct (map V (present s))"
    by (rule mset_eq_imp_distinct_iff)
  from m have st: "set (present s') = set (present s)" by (rule mset_eq_setD)
  have "0 \<le> getP s' (V e)" if "e \<in> set (present s)" for e
  proof -
    from that assms(1) have "0 \<le> V e" "V e < Capacity s" "0 \<le> getP s (V e)"
      by (auto simp: consistent_def)
    moreover from assms(1) have "length (Positions s) = nat (Capacity s)"
      by (simp add: consistent_def)
    ultimately show ?thesis using k by (auto simp: keeps_nonneg_def getP_def)
  qed
  then show ?thesis
    using assms(1) d st eqs k by (auto simp: consistent_def keeps_nonneg_def)
qed

lemma present_swap:
  assumes "i < n" "j < n" "n \<le> length Q"
  shows "mset (take n (Q[i := Q ! j, j := Q ! i])) = mset (take n Q)"
proof -
  have "take n (Q[i := Q ! j, j := Q ! i]) = (take n Q)[i := take n Q ! j, j := take n Q ! i]"
    using assms by (simp add: take_update_swap)
  moreover have "mset ((take n Q)[i := take n Q ! j, j := take n Q ! i]) = mset (take n Q)"
    using assms by (intro mset_swap) simp_all
  ultimately show ?thesis by simp
qed

lemma shiftUp_frame:
  assumes "shiftUp s position = (Inr u, s')" "position < NumElements s"
    "NumElements s \<le> int (length (Queue s))"
  shows "rearranged s s' \<and>
         (\<forall>j. 0 \<le> j \<and> j \<notin> V ` set (present s) \<longrightarrow> getP s' j = getP s j)"
  using assms
proof (induction s position rule: shiftUp.induct)
  case (1 s position)
  define q where "q = getParentIndex position"
  show ?case
  proof (cases "inQ s position \<and> inQ s q \<and> D (getQ s position) < D (getQ s q)")
    case False
    with "1.prems"(1) have "s' = s"
      by (subst (asm) shiftUp.simps) (auto simp: Let_def q_def split: if_splits)
    then show ?thesis by (simp add: rearranged_refl)
  next
    case True
    define s1 where "s1 = setQ s q (getQ s position)"
    define s2 where "s2 = setP s1 (V (getQ s1 q)) q"
    define s3 where "s3 = setQ s2 position (getQ s q)"
    define s4 where "s4 = setP s3 (V (getQ s3 position)) position"
    from True have "position \<noteq> 0" by (auto simp: q_def getParentIndex_0)
    with True have gt: "0 < position" by (simp add: inQ_def)
    from getParentIndex_less [OF gt] have q: "0 \<le> q" "q < position" by (simp_all add: q_def)
    from "1.prems"(1) True
    have ok: "inP s1 (V (getQ s1 q))" "inP s3 (V (getQ s3 position))"
      and rec: "shiftUp s4 q = (Inr u, s')"
      by (subst (asm) shiftUp.simps;
          simp add: Let_def q_def [symmetric] s1_def [symmetric] s2_def [symmetric]
            s3_def [symmetric] s4_def [symmetric] split: if_splits)+
    let ?Q = "Queue s" and ?P = "Positions s"
    let ?p = "nat position" and ?q = "nat q"
    have lens: "?p < length ?Q" "?q < length ?Q" "?q \<noteq> ?p"
      using True q gt by (auto simp: inQ_def)
    have Q4: "Queue s4 = ?Q[?q := ?Q ! ?p, ?p := ?Q ! ?q]"
      by (simp add: s4_def s3_def s2_def s1_def getQ_def)
    have g1: "getQ s1 q = ?Q ! ?p" using lens by (simp add: s1_def getQ_def)
    have g3: "getQ s3 position = ?Q ! ?q"
      using lens by (simp add: s3_def s2_def s1_def getQ_def)
    have "Positions s4 = (Positions s3)[nat (V (?Q ! ?q)) := position]"
      by (simp add: s4_def g3)
    also have "Positions s3 = Positions s2" by (simp add: s3_def)
    also have "Positions s2 = (Positions s1)[nat (V (?Q ! ?p)) := q]"
      by (simp add: s2_def g1)
    also have "Positions s1 = ?P" by (simp add: s1_def)
    finally have P4: "Positions s4 = ?P[nat (V (?Q ! ?p)) := q, nat (V (?Q ! ?q)) := position]" .
    have vp: "0 \<le> V (?Q ! ?p)" "0 \<le> V (?Q ! ?q)"
      using ok by (simp_all add: g1 g3 inP_def)
    have N4: "NumElements s4 = NumElements s" "Capacity s4 = Capacity s"
      by (simp_all add: s4_def s3_def s2_def s1_def)
    have n: "?p < nat (NumElements s)" "?q < nat (NumElements s)"
      "nat (NumElements s) \<le> length ?Q"
      using "1.prems"(2,3) q gt by simp_all
    have m4: "mset (present s4) = mset (present s)"
      unfolding present_def N4 Q4 using present_swap [OF n(2) n(1) n(3)] by simp
    have k4: "keeps_nonneg ?P (Positions s4)"
      unfolding P4 using q gt
      by (intro keeps_nonneg_trans [OF keeps_nonneg_update keeps_nonneg_update]) simp_all
    have r4: "rearranged s s4"
      using m4 k4 N4 by (simp add: rearranged_def Q4)
    have inpres: "?Q ! ?p \<in> set (present s)" "?Q ! ?q \<in> set (present s)"
      using n by (simp_all add: present_def nth_in_take)
    have f4: "getP s4 j = getP s j" if "0 \<le> j" "j \<notin> V ` set (present s)" for j
    proof -
      from that inpres have "j \<noteq> V (?Q ! ?p)" "j \<noteq> V (?Q ! ?q)" by auto
      with that(1) vp have "nat j \<noteq> nat (V (?Q ! ?p))" "nat j \<noteq> nat (V (?Q ! ?q))" by auto
      then show ?thesis by (simp add: getP_def P4)
    qed
    have "q < NumElements s4" "NumElements s4 \<le> int (length (Queue s4))"
      using q "1.prems"(2,3) by (simp_all add: N4 Q4)
    from "1.IH" [OF q_def _ _ _ refl s1_def _ s2_def s3_def _ s4_def rec this]
    have IH: "rearranged s4 s' \<and>
         (\<forall>j. 0 \<le> j \<and> j \<notin> V ` set (present s4) \<longrightarrow> getP s' j = getP s4 j)"
      using True ok by (simp add: s3_def)
    from m4 have "set (present s4) = set (present s)" by (rule mset_eq_setD)
    with IH r4 f4 show ?thesis by (auto intro: rearranged_trans)
  qed
qed

lemma shiftDown_frame:
  assumes "shiftDown s position = (Inr u, s')" "NumElements s \<le> int (length (Queue s))"
  shows "rearranged s s'"
  using assms
proof (induction s position rule: shiftDown.induct)
  case (1 s position)
  let ?l = "getLeftChildIndex position" and ?r = "getRightChildIndex position"
  let ?sel = "if ?r \<ge> NumElements s then Inr ?l else getSmallerChild s position"
  show ?case
  proof (cases "\<not> (?r \<ge> NumElements s \<and> ?l \<ge> NumElements s) \<and>
                (\<exists>m. ?sel = Inr m \<and> inQ s position \<and> inQ s m \<and>
                     D (getQ s position) > D (getQ s m))")
    case False
    with "1.prems"(1) have "s' = s"
      by (subst (asm) shiftDown.simps) (auto simp: Let_def split: if_splits sum.splits)
    then show ?thesis by (simp add: rearranged_refl)
  next
    case True
    then obtain m where sel: "?sel = Inr m" and inq: "inQ s position" "inQ s m"
      and gt: "D (getQ s position) > D (getQ s m)"
      and nb: "\<not> (?r \<ge> NumElements s \<and> ?l \<ge> NumElements s)"
      by blast
    define s1 where "s1 = setQ s m (getQ s position)"
    define s2 where "s2 = setP s1 position m"
    define s3 where "s3 = setQ s2 position (getQ s m)"
    define s4 where "s4 = setP s3 m position"
    from inq have p0: "0 \<le> position" by (simp add: inQ_def)
    from minIndex_bounds [OF nb sel p0] have m: "position < m" "m < NumElements s" by simp_all
    from "1.prems"(1) nb sel inq gt
    have ok: "inP s1 position" "inP s3 m"
      and rec: "shiftDown s4 m = (Inr u, s')"
      by (subst (asm) shiftDown.simps;
          simp add: Let_def s1_def [symmetric] s2_def [symmetric]
            s3_def [symmetric] s4_def [symmetric] split: if_splits)+
    let ?Q = "Queue s" and ?P = "Positions s"
    let ?p = "nat position" and ?m = "nat m"
    have Q4: "Queue s4 = ?Q[?m := ?Q ! ?p, ?p := ?Q ! ?m]"
      by (simp add: s4_def s3_def s2_def s1_def getQ_def)
    have P4: "Positions s4 = ?P[?p := m, ?m := position]"
      by (simp add: s4_def s3_def s2_def s1_def)
    have N4: "NumElements s4 = NumElements s" "Capacity s4 = Capacity s"
      by (simp_all add: s4_def s3_def s2_def s1_def)
    have n: "?p < nat (NumElements s)" "?m < nat (NumElements s)"
      "nat (NumElements s) \<le> length ?Q"
      using "1.prems"(2) m p0 by simp_all
    have m4: "mset (present s4) = mset (present s)"
      unfolding present_def N4 Q4 using present_swap [OF n(2) n(1) n(3)] by simp
    have k4: "keeps_nonneg ?P (Positions s4)"
      unfolding P4 using m p0
      by (intro keeps_nonneg_trans [OF keeps_nonneg_update keeps_nonneg_update]) simp_all
    have r4: "rearranged s s4"
      using m4 k4 N4 by (simp add: rearranged_def Q4)
    have "NumElements s4 \<le> int (length (Queue s4))"
      using "1.prems"(2) by (simp add: N4 Q4)
    from "1.IH" [OF refl refl nb sel _ gt refl s1_def _ s2_def s3_def _ s4_def rec this]
    have "rearranged s4 s'"
      using inq ok by (simp add: s3_def)
    with r4 show ?thesis by (rule rearranged_trans)
  qed
qed

lemma swap_frame:
  assumes "swap s position = (Inr u, s')" "position < NumElements s"
    "NumElements s \<le> int (length (Queue s))"
  shows "rearranged s s'"
proof -
  from assms(1) obtain okP where
    p: "inCorrectSpotwithRespectToParent s position = Inr okP"
    by (auto simp: swap_def split: sum.splits)
  with assms(1) obtain s1 where
    up: "(if \<not> okP then shiftUp s position else (Inr (), s)) = (Inr (), s1)"
    by (auto simp: swap_def split: sum.splits prod.splits)
  with assms(1) p obtain okC where
    c: "inCorrectSpotwithRespectToChild s1 position = Inr okC"
    by (auto simp: swap_def split: sum.splits)
  with assms(1) p up have
    down: "(if \<not> okC then shiftDown s1 position else (Inr (), s1)) = (Inr u, s')"
    by (simp add: swap_def)
  from up have r1: "rearranged s s1"
    using shiftUp_frame [OF _ assms(2,3)] by (auto simp: rearranged_refl split: if_splits)
  then have "NumElements s1 \<le> int (length (Queue s1))"
    using assms(3) by (simp add: rearranged_def)
  with down have "rearranged s1 s'"
    by (auto simp: rearranged_refl dest: shiftDown_frame split: if_splits)
  with r1 show ?thesis by (rule rearranged_trans)
qed

lemma remove_slot_mset:
  assumes "i < length xs"
  shows "add_mset (xs ! i) (mset ((butlast xs)[i := last xs])) = mset xs"
proof -
  from assms have ne: "xs \<noteq> []" by auto
  then have "xs = butlast xs @ [last xs]" by simp
  then have "mset xs = mset (butlast xs @ [last xs])" by simp
  then have msx: "mset xs = add_mset (last xs) (mset (butlast xs))" by simp
  show ?thesis
  proof (cases "i = length xs - 1")
    case True
    then have "(butlast xs)[i := last xs] = butlast xs" by (simp add: list_update_beyond)
    moreover have "xs ! i = last xs" using True ne by (simp add: last_conv_nth)
    ultimately show ?thesis using msx by simp
  next
    case False
    with assms have i: "i < length (butlast xs)" by simp
    then have nth: "butlast xs ! i = xs ! i" by (simp add: nth_butlast)
    have "mset ((butlast xs)[i := last xs])
        = add_mset (last xs) (mset (butlast xs) - {#xs ! i#})"
      using i by (simp add: mset_update nth)
    moreover have "xs ! i \<in># mset (butlast xs)"
      using i nth by (metis nth_mem set_mset_mset)
    ultimately show ?thesis using msx by simp
  qed
qed

subsection \<open>Delete and Insert keep the state consistent\<close>

lemma length_present: "consistent s \<Longrightarrow> length (present s) = nat (NumElements s)"
  by (auto simp: consistent_def present_def)

lemma removal_consistent:
  assumes c: "consistent s" and pos: "0 \<le> position" "position < NumElements s"
    and eqs: "Capacity s' = Capacity s" "NumElements s' = NumElements s - 1"
      "length (Queue s') = length (Queue s)"
    and pres: "present s' = (butlast (present s))[nat position := last (present s)]"
    and P: "Positions s' = (Positions s)[nat (V (last (present s))) := position,
                                          nat (V (getQ s position)) := -1]"
  shows "consistent s'"
proof -
  let ?xs = "present s" and ?ys = "present s'" and ?i = "nat position"
  have len: "length ?xs = nat (NumElements s)" using c by (rule length_present)
  with pos have i: "?i < length ?xs" by simp
  have xi: "?xs ! ?i = getQ s position"
    using pos by (simp add: present_def getQ_def)
  from remove_slot_mset [OF i] pres
  have ms: "add_mset (?xs ! ?i) (mset ?ys) = mset ?xs" by simp
  then have "mset (map V ?xs) = mset (V (?xs ! ?i) # map V ?ys)"
    by (metis mset.simps(2) mset_map image_mset_add_mset)
  then have "distinct (map V ?xs) \<longleftrightarrow> distinct (V (?xs ! ?i) # map V ?ys)"
    by (rule mset_eq_imp_distinct_iff)
  with c have d: "distinct (map V ?ys)" and notin: "V (?xs ! ?i) \<notin> V ` set ?ys"
    by (simp_all add: consistent_def)
  from ms have "set_mset (mset ?xs) = set_mset (add_mset (?xs ! ?i) (mset ?ys))" by simp
  then have sub: "set ?ys \<subseteq> set ?xs" by auto
  have xin: "?xs ! ?i \<in> set ?xs" using i by simp
  have lenP: "length (Positions s) = nat (Capacity s)" using c by (simp add: consistent_def)
  have elem: "0 \<le> V e \<and> V e < Capacity s' \<and> 0 \<le> getP s' (V e)" if e: "e \<in> set ?ys" for e
  proof -
    from e sub have ex: "e \<in> set ?xs" by auto
    with c have r: "0 \<le> V e" "V e < Capacity s" "0 \<le> getP s (V e)"
      by (auto simp: consistent_def)
    from xin c have "0 \<le> V (?xs ! ?i)" by (auto simp: consistent_def)
    moreover from e notin have "V e \<noteq> V (?xs ! ?i)" by (metis imageI)
    ultimately have ne: "nat (V (getQ s position)) \<noteq> nat (V e)" using r(1) xi by simp
    have lt: "nat (V e) < length (Positions s)" using r lenP by simp
    have "getP s' (V e) = (Positions s)[nat (V (last ?xs)) := position] ! nat (V e)"
      unfolding getP_def P using ne by simp
    also have "\<dots> = (if nat (V (last ?xs)) = nat (V e) then position else getP s (V e))"
      using lt by (simp add: nth_list_update getP_def)
    finally show ?thesis using r pos eqs by simp
  qed
  show ?thesis
    unfolding consistent_def using c d elem eqs pos P
    by (auto simp: consistent_def)
qed


lemma present_last:
  assumes "consistent s" "0 < NumElements s"
  shows "last (present s) = getQ s (NumElements s - 1)"
    and "butlast (present s) = take (nat (NumElements s - 1)) (Queue s)"
proof -
  from assms have n: "nat (NumElements s) \<le> length (Queue s)" "0 < nat (NumElements s)"
    by (auto simp: consistent_def)
  then have ne: "present s \<noteq> []" by (auto simp: present_def)
  have len: "length (present s) = nat (NumElements s)" using assms(1) by (rule length_present)
  have "nat (NumElements s) - 1 = nat (NumElements s - 1)" using assms(2) by simp
  then show "last (present s) = getQ s (NumElements s - 1)"
    using ne len n by (simp add: last_conv_nth getQ_def) (simp add: present_def)
  show "butlast (present s) = take (nat (NumElements s - 1)) (Queue s)"
    using n assms(2) by (simp add: present_def butlast_take nat_diff_distrib)
qed

lemma Delete_consistent:
  assumes c: "consistent s" and d: "Delete s position = (Inr v, s')"
  shows "consistent s' \<and> NumElements s' = NumElements s - 1 \<and> Capacity s' = Capacity s"
proof -
  let ?n = "NumElements s" and ?Q = "Queue s" and ?P = "Positions s"
  from d have pos: "0 \<le> position" "position < ?n" and inq: "inQ s position"
    by (auto simp: Delete_def split: if_splits)
  from d pos inq have v: "v = V (getQ s position)"
    by (auto simp: Delete_def Let_def Empty_def split: if_splits sum.splits prod.splits)
  from pos have n0: "0 < ?n" by simp
  note lb = present_last [OF c n0]
  from c have lens: "length ?Q = nat (Capacity s)" "?n \<le> Capacity s"
    by (simp_all add: consistent_def)
  show ?thesis
  proof (cases "position = ?n - 1")
    case True
    define s1 where "s1 = setQ s position ((getQ s position)\<lparr>D := -1\<rparr>)"
    define s2 where "s2 = setQ s1 position ((getQ s1 position)\<lparr>V := -1\<rparr>)"
    define s3 where "s3 = setP s2 v (-1)"
    define s4 where "s4 = s3\<lparr>NumElements := NumElements s3 - 1\<rparr>"
    from d pos inq True have s': "s' = s4"
      by (auto simp: Delete_def Let_def Empty_def v s1_def s2_def s3_def s4_def
               split: if_splits)
    have f: "Capacity s4 = Capacity s" "NumElements s4 = ?n - 1"
      "length (Queue s4) = length ?Q"
      by (simp_all add: s4_def s3_def s2_def s1_def)
    have "present s4 = take (nat (?n - 1)) ?Q"
      using True by (simp add: present_def s4_def s3_def s2_def s1_def)
    also have "\<dots> = (butlast (present s))[nat position := last (present s)]"
      using True by (simp add: lb list_update_beyond)
    finally have pr: "present s4 = (butlast (present s))[nat position := last (present s)]" .
    have "Positions s4 = ?P[nat v := -1]"
      by (simp add: s4_def s3_def s2_def s1_def)
    also have "\<dots> = ?P[nat (V (last (present s))) := position, nat (V (getQ s position)) := -1]"
      using True by (simp add: lb v)
    finally have "consistent s4"
      by (rule removal_consistent [OF c pos f pr])
    with f show ?thesis by (simp add: s')
  next
    case False
    with pos have ne1: "?n \<noteq> 1" by simp
    define s1 where "s1 = s\<lparr>NumElements := ?n - 1\<rparr>"
    define s2 where "s2 = setQ s1 position (getQ s1 (NumElements s1))"
    define s3 where "s3 = setP s2 (V (getQ s2 position)) position"
    define s4 where "s4 = setP s3 (V (getQ s position)) (-1)"
    define s5 where "s5 = setQ s4 (NumElements s4) ((getQ s4 (NumElements s4))\<lparr>V := -1\<rparr>)"
    define s6 where "s6 = setQ s5 (NumElements s5) ((getQ s5 (NumElements s5))\<lparr>D := -1\<rparr>)"
    from d pos inq False ne1 have out: "s' = s6 \<or> (\<exists>u. swap s6 position = (Inr u, s'))"
      by (simp add: Delete_def Let_def Empty_def v s1_def [symmetric] s2_def [symmetric]
            s3_def [symmetric] s4_def [symmetric] s5_def [symmetric] s6_def [symmetric]
          split: if_splits sum.splits prod.splits)
    have N: "NumElements s1 = ?n - 1" by (simp add: s1_def)
    have f: "Capacity s6 = Capacity s" "NumElements s6 = ?n - 1"
      "length (Queue s6) = length ?Q"
      by (simp_all add: s6_def s5_def s4_def s3_def s2_def s1_def)
    have plt: "nat position < nat (?n - 1)" "nat (?n - 1) < length ?Q"
      using pos False lens by simp_all
    from plt have pl: "nat position < length ?Q" by linarith
    have "Queue s2 = ?Q[nat position := getQ s (?n - 1)]"
      by (simp add: s2_def N getQ_def) (simp add: s1_def)
    then have g2: "getQ s2 position = getQ s (?n - 1)"
      using pl by (simp add: getQ_def)
    have "Queue s6 = ?Q[nat position := getQ s (?n - 1),
                        nat (?n - 1) := (getQ s4 (?n - 1))\<lparr>V := -1\<rparr>,
                        nat (?n - 1) := (getQ s5 (?n - 1))\<lparr>D := -1\<rparr>]"
      by (simp add: s6_def s5_def s4_def s3_def s2_def N getQ_def) (simp add: s1_def)
    then have "present s6 = take (nat (?n - 1)) (?Q[nat position := getQ s (?n - 1)])"
      by (simp add: present_def f)
    also have "\<dots> = (butlast (present s))[nat position := last (present s)]"
      by (simp add: lb take_update_swap)
    finally have pr: "present s6 = (butlast (present s))[nat position := last (present s)]" .
    have "Positions s6 = ?P[nat (V (getQ s2 position)) := position,
                            nat (V (getQ s position)) := -1]"
      by (simp add: s6_def s5_def s4_def s3_def) (simp add: s2_def s1_def)
    also have "\<dots> = ?P[nat (V (last (present s))) := position, nat (V (getQ s position)) := -1]"
      by (simp add: lb g2)
    finally have c6: "consistent s6"
      by (rule removal_consistent [OF c pos f pr])
    from out show ?thesis
    proof
      assume "s' = s6"
      with c6 f show ?thesis by simp
    next
      assume "\<exists>u. swap s6 position = (Inr u, s')"
      then obtain u where "swap s6 position = (Inr u, s')" ..
      moreover have "position < NumElements s6" "NumElements s6 \<le> int (length (Queue s6))"
        using pos False lens unfolding f by linarith+
      ultimately have "rearranged s6 s'"
        by (rule swap_frame)
      with c6 f show ?thesis
        by (auto simp: rearranged_def intro: rearranged_consistent)
    qed
  qed
qed

lemma present_vertex_nonneg:
  "consistent s \<Longrightarrow> e \<in> set (present s) \<Longrightarrow> 0 \<le> getP s (V e)"
  by (simp add: consistent_def)

lemma Insert_consistent:
  assumes c: "consistent s" and i: "Insert s v d = (Inr u, s')"
  shows "consistent s' \<and> mset (present s') = add_mset (el v d) (mset (present s)) \<and>
         NumElements s' = NumElements s + 1 \<and> Capacity s' = Capacity s \<and>
         (\<forall>j. 0 \<le> j \<and> j \<noteq> v \<and> j \<notin> V ` set (present s) \<longrightarrow> getP s' j = getP s j)"
proof -
  let ?n = "NumElements s" and ?Q = "Queue s" and ?P = "Positions s"
  from i have v: "0 \<le> v" "v < Capacity s" and inp: "inP s v" and absent: "getP s v = -1"
    and inq: "inQ s ?n"
    by (auto simp: Insert_def split: if_splits)
  from absent present_vertex_nonneg [OF c] have nv: "v \<notin> V ` set (present s)" by force
  define s3 where "s3 = (setP (setQ s ?n (el v d)) v ?n)\<lparr>NumElements := ?n + 1\<rparr>"
  from i v inp absent inq have out: "s' = s3 \<or> shiftUp s3 ?n = (Inr u, s')"
    by (simp add: Insert_def Let_def s3_def [symmetric] split: if_splits)
       (simp_all add: s3_def)
  from c have lens: "length ?Q = nat (Capacity s)" "length ?P = nat (Capacity s)" "0 \<le> ?n"
    by (simp_all add: consistent_def)
  from inq have nlt: "nat ?n < length ?Q" unfolding inQ_def by linarith
  have f: "Capacity s3 = Capacity s" "NumElements s3 = ?n + 1" "length (Queue s3) = length ?Q"
    "length (Positions s3) = length ?P"
    by (simp_all add: s3_def)
  have "present s3 = take (Suc (nat ?n)) (?Q[nat ?n := el v d])"
    using lens by (simp add: present_def s3_def nat_add_distrib)
  also have "\<dots> = present s @ [el v d]"
    using nlt by (simp add: take_Suc_conv_app_nth present_def)
  finally have pr: "present s3 = present s @ [el v d]" .
  have P3: "Positions s3 = ?P[nat v := ?n]" by (simp add: s3_def)
  have g3: "getP s3 j = (if j = v then ?n else getP s j)" if "0 \<le> j" "j < Capacity s" for j
    using that v lens by (auto simp: getP_def P3 nth_list_update)
  have c3: "consistent s3"
    unfolding consistent_def f pr using c nv v nlt lens
    by (auto simp: consistent_def g3)
  have fr3: "getP s3 j = getP s j" if "0 \<le> j" "j \<noteq> v" for j
    using that v by (simp add: getP_def P3)
  from out show ?thesis
  proof
    assume "s' = s3"
    with c3 f pr fr3 show ?thesis by simp
  next
    assume "shiftUp s3 ?n = (Inr u, s')"
    moreover have "?n < NumElements s3" "NumElements s3 \<le> int (length (Queue s3))"
      using nlt unfolding f by linarith+
    ultimately have r: "rearranged s3 s'"
      and fr: "\<forall>j. 0 \<le> j \<and> j \<notin> V ` set (present s3) \<longrightarrow> getP s' j = getP s3 j"
      using shiftUp_frame by blast+
    from r c3 have "consistent s'" by (auto intro: rearranged_consistent)
    moreover from r have "mset (present s') = add_mset (el v d) (mset (present s))"
      by (simp add: rearranged_def pr)
    moreover from r have "NumElements s' = ?n + 1" "Capacity s' = Capacity s"
      by (simp_all add: rearranged_def f)
    moreover have "getP s' j = getP s j" if "0 \<le> j" "j \<noteq> v" "j \<notin> V ` set (present s)" for j
      using that fr fr3 by (simp add: pr)
    ultimately show ?thesis by simp
  qed
qed

subsection \<open>The public operations keep the state consistent\<close>

lemma PQueue_consistent:
  assumes "PQueue N = Inr s"
  shows "consistent s \<and> tight s \<and> NumElements s = 0 \<and> Capacity s = N"
proof -
  from assms have N: "0 \<le> N" by (auto simp: PQueue_def split: if_splits)
  from PQueue_Inr [OF N] assms
  have s: "s = pq (replicate (nat N) (-1)) (replicate (nat N) (el (-1) (-1))) 0 N" by simp
  show ?thesis
    using N by (simp add: s consistent_def tight_def present_def getP_def)
qed

lemma Fill_loop_result:
  assumes "length (Queue s) = nat (Capacity s)" "length (Positions s) = nat (Capacity s)"
    "0 \<le> v"
  shows "\<exists>s'. Fill_loop s d v = (Inr (), s') \<and> Capacity s' = Capacity s \<and>
           NumElements s' = NumElements s \<and>
           length (Queue s') = length (Queue s) \<and>
           length (Positions s') = length (Positions s) \<and>
           (\<forall>i. v \<le> i \<and> i < Capacity s \<longrightarrow> getQ s' i = el i d \<and> getP s' i = i) \<and>
           (\<forall>i. 0 \<le> i \<and> i < v \<longrightarrow> getQ s' i = getQ s i \<and> getP s' i = getP s i)"
  using assms
proof (induction s d v rule: Fill_loop.induct)
  case (1 s d v)
  show ?case
  proof (cases "v < Capacity s")
    case False
    then show ?thesis by (subst Fill_loop.simps) simp
  next
    case True
    define s1 where "s1 = setQ s v ((getQ s v)\<lparr>V := v\<rparr>)"
    define s2 where "s2 = setQ s1 v ((getQ s1 v)\<lparr>D := d\<rparr>)"
    define s3 where "s3 = setP s2 v v"
    have inb: "inQ s v \<and> inP s v" using True "1.prems" by (simp add: inQ_def inP_def)
    then have inb': "\<not> \<not> (inQ s v \<and> inP s v)" by simp
    have vlt: "nat v < length (Queue s)" "nat v < length (Positions s)"
      using True "1.prems" by simp_all
    have upd: "(e::Elem)\<lparr>V := v, D := d\<rparr> = el v d" for e
      by (cases e) simp
    have Q3: "Queue s3 = (Queue s)[nat v := el v d]"
      using vlt by (simp add: s3_def s2_def s1_def getQ_def upd)
    have P3: "Positions s3 = (Positions s)[nat v := v]"
      by (simp add: s3_def s2_def s1_def)
    have f3: "Capacity s3 = Capacity s" "NumElements s3 = NumElements s"
      by (simp_all add: s3_def s2_def s1_def)
    have unf: "Fill_loop s d v = Fill_loop s3 d (v + 1)"
      using True inb by (subst Fill_loop.simps) (simp add: Let_def s3_def s2_def s1_def)
    have "length (Queue s3) = nat (Capacity s3)" "length (Positions s3) = nat (Capacity s3)"
      "0 \<le> v + 1"
      using "1.prems" by (simp_all add: Q3 P3 f3)
    from "1.IH" [OF True inb' s1_def s2_def s3_def this]
    obtain s' where s': "Fill_loop s3 d (v + 1) = (Inr (), s')"
      "Capacity s' = Capacity s" "NumElements s' = NumElements s"
      "length (Queue s') = length (Queue s)" "length (Positions s') = length (Positions s)"
      and hi: "\<And>i. v + 1 \<le> i \<Longrightarrow> i < Capacity s \<Longrightarrow> getQ s' i = el i d \<and> getP s' i = i"
      and lo: "\<And>i. 0 \<le> i \<Longrightarrow> i < v + 1 \<Longrightarrow> getQ s' i = getQ s3 i \<and> getP s' i = getP s3 i"
      by (auto simp: f3 Q3 P3)
    have at: "getQ s3 v = el v d" "getP s3 v = v"
      using vlt by (simp_all add: getQ_def getP_def Q3 P3)
    have below: "getQ s3 i = getQ s i \<and> getP s3 i = getP s i" if "0 \<le> i" "i < v" for i
      using that by (simp add: getQ_def getP_def Q3 P3)
    have "getQ s' i = el i d \<and> getP s' i = i" if "v \<le> i" "i < Capacity s" for i
    proof (cases "i = v")
      case True
      then show ?thesis using lo [of v] at "1.prems"(3) by simp
    next
      case False
      then show ?thesis using hi [of i] that by simp
    qed
    moreover have "getQ s' i = getQ s i \<and> getP s' i = getP s i" if "0 \<le> i" "i < v" for i
      using lo [of i] below [of i] that by simp
    ultimately show ?thesis using s' unf by simp
  qed
qed

lemma Fill_consistent:
  assumes c: "consistent s" and fl: "Fill s d = (Inr u, s')"
  shows "consistent s'"
proof -
  from c have lens: "length (Queue s) = nat (Capacity s)"
    "length (Positions s) = nat (Capacity s)" and cap: "0 \<le> Capacity s"
    by (auto simp: consistent_def)
  from Fill_loop_result [OF lens(1,2), of 0 d]
  obtain t where t: "Fill_loop s d 0 = (Inr (), t)" "Capacity t = Capacity s"
    "length (Queue t) = length (Queue s)" "length (Positions t) = length (Positions s)"
    and all: "\<And>i. 0 \<le> i \<Longrightarrow> i < Capacity s \<Longrightarrow> getQ t i = el i d \<and> getP t i = i"
    by auto
  from fl t have s': "s' = t\<lparr>NumElements := Capacity t\<rparr>" by (simp add: Fill_def)
  have pr: "present s' = Queue t"
    using t lens by (simp add: s' present_def)
  have nth: "Queue t ! i = el (int i) d" "Positions t ! i = int i" if "i < nat (Capacity s)" for i
    using all [of "int i"] that by (simp_all add: getQ_def getP_def)
  have "distinct (map V (Queue t))"
    using t lens by (auto simp: distinct_conv_nth nth)
  moreover have "0 \<le> V e \<and> V e < Capacity s \<and> 0 \<le> getP s' (V e)" if "e \<in> set (Queue t)" for e
  proof -
    from that obtain i where "i < length (Queue t)" "e = Queue t ! i"
      by (auto simp: in_set_conv_nth)
    then show ?thesis using t lens nth [of i] by (simp add: s' getP_def)
  qed
  ultimately show ?thesis
    using t lens cap by (simp add: consistent_def pr) (simp add: s')
qed

text \<open>
  A successful \<open>Push\<close> ends in a successful \<open>Insert\<close> from a consistent state (the
  state itself, or the one its \<open>Delete\<close> left) in which the vertex has the position
  entry \<open>-1\<close>.
\<close>

lemma Push_Insert:
  assumes c: "consistent s" and p: "Push s v d = (Inr u, s')"
  obtains t where "consistent t" "getP t v = -1" "Insert t v d = (Inr u, s')"
    "t = s \<or> (\<exists>w. Delete s (getP s v) = (Inr w, t))"
proof (cases "0 \<le> getP s v")
  case False
  with p have "Insert s v d = (Inr u, s')"
    by (auto simp: Push_def Let_def split: if_splits)
  moreover from this have "getP s v = -1" by (auto simp: Insert_def split: if_splits)
  ultimately show ?thesis using c that by blast
next
  case True
  with p obtain w t where del: "Delete s (getP s v) = (Inr w, t)"
    and t: "getP t v = -1" "Insert t v d = (Inr u, s')"
    by (auto simp: Push_def Let_def split: if_splits sum.splits prod.splits)
  from Delete_consistent [OF c del] have "consistent t" by simp
  with del t show ?thesis using that by blast
qed

lemma Push_consistent:
  assumes "consistent s" "Push s v d = (Inr u, s')"
  shows "consistent s'"
  using Push_Insert [OF assms] Insert_consistent by metis

lemma PopMin_consistent:
  assumes "consistent s" "PopMin s = (Inr v, s')"
  shows "consistent s' \<and> NumElements s' = NumElements s - 1"
proof -
  from assms(2) have "Delete s 0 = (Inr v, s')"
    by (auto simp: PopMin_def split: if_splits)
  from Delete_consistent [OF assms(1) this] show ?thesis by simp
qed

lemma reachable_consistent: "reachable s \<Longrightarrow> consistent s"
proof (induction rule: reachable.induct)
  case (reach_PQueue N s)
  then show ?case by (simp add: PQueue_consistent)
next
  case (reach_Fill s d u s')
  then show ?case by (auto intro: Fill_consistent)
next
  case (reach_Push s v d u s')
  then show ?case by (auto intro: Push_consistent)
next
  case (reach_PopMin s v s')
  then show ?case by (auto dest: PopMin_consistent)
qed

lemma filter_absent:
  assumes "v \<notin> V ` set xs"
  shows "filter (\<lambda>e. V e = v) xs = []"
  using assms by (induction xs) auto

lemma reachable_pushAll:
  "reachable s \<Longrightarrow> pushAll s vds = (Inr u, s') \<Longrightarrow> reachable s'"
proof (induction vds arbitrary: s)
  case Nil
  then show ?case by simp
next
  case (Cons a vds)
  obtain v d where a: "a = (v, d)" by (cases a)
  from Cons.prems(2) obtain s1 where "Push s v d = (Inr (), s1)" "pushAll s1 vds = (Inr u, s')"
    by (auto simp: a split: prod.splits sum.splits)
  with Cons.prems(1) Cons.IH show ?case by (blast intro: reach_Push)
qed

section \<open>Pushing a vertex twice\<close>

text \<open>
  C5. In every reachable state, when \<open>Push(v, d1)\<close> and then \<open>Push(v, d2)\<close> both
  return normally, the occupied slots afterwards hold exactly one element with vertex
  \<open>v\<close>, and it is \<open>(v, d2)\<close>: the list of the present elements with vertex \<open>v\<close>
  is the one-element list \<open>[(v, d2)]\<close>.
\<close>

theorem Push_twice_keeps_last_distance:
  assumes "reachable s" "Push s v d1 = (Inr u1, s1)" "Push s1 v d2 = (Inr u2, s2)"
  shows "filter (\<lambda>e. V e = v) (present s2) = [el v d2]"
proof -
  from assms(1,2) have "reachable s1" by (rule reach_Push)
  then have c1: "consistent s1" by (rule reachable_consistent)
  from Push_Insert [OF c1 assms(3)] obtain t where
    t: "consistent t" "getP t v = -1" "Insert t v d2 = (Inr u2, s2)" by blast
  from t(2) present_vertex_nonneg [OF t(1)] have "v \<notin> V ` set (present t)" by force
  then have none: "filter (\<lambda>e. V e = v) (present t) = []" by (rule filter_absent)
  from Insert_consistent [OF t(1,3)]
  have "mset (present s2) = add_mset (el v d2) (mset (present t))" by simp
  then have "mset (filter (\<lambda>e. V e = v) (present s2))
           = filter_mset (\<lambda>e. V e = v) (add_mset (el v d2) (mset (present t)))"
    by (simp only: mset_filter)
  also have "\<dots> = {#el v d2#}"
    using none by (simp flip: mset_filter)
  finally show ?thesis by (simp only: mset_single_iff)
qed


theorem Push_twice_keeps_last_distance_witness:
  "reachable (pq [0, 1, -1] [el 0 5, el 1 7, el (-1) (-1)] 2 3) \<and>
   Push (pq [0, 1, -1] [el 0 5, el 1 7, el (-1) (-1)] 2 3) 0 9
     = (Inr (), pq [1, 0, -1] [el 1 7, el 0 9, el (-1) (-1)] 2 3) \<and>
   Push (pq [1, 0, -1] [el 1 7, el 0 9, el (-1) (-1)] 2 3) 0 6
     = (Inr (), pq [0, 1, -1] [el 0 6, el 1 7, el (-1) (-1)] 2 3) \<and>
   filter (\<lambda>e. V e = 0) (present (pq [0, 1, -1] [el 0 6, el 1 7, el (-1) (-1)] 2 3))
     = [el 0 6]"
proof -
  have new: "PQueue 3 = Inr (pq [-1, -1, -1] [el (-1) (-1), el (-1) (-1), el (-1) (-1)] 0 3)"
    by code_simp
  have pushes: "pushAll (pq [-1, -1, -1] [el (-1) (-1), el (-1) (-1), el (-1) (-1)] 0 3)
                  [(0, 5), (1, 7)]
                = (Inr (), pq [0, 1, -1] [el 0 5, el 1 7, el (-1) (-1)] 2 3)"
    by code_simp
  have r: "reachable (pq [0, 1, -1] [el 0 5, el 1 7, el (-1) (-1)] 2 3)"
    by (rule reachable_pushAll [OF reach_PQueue [OF new] pushes])
  have p1: "Push (pq [0, 1, -1] [el 0 5, el 1 7, el (-1) (-1)] 2 3) 0 9
     = (Inr (), pq [1, 0, -1] [el 1 7, el 0 9, el (-1) (-1)] 2 3)"
    by code_simp
  have p2: "Push (pq [1, 0, -1] [el 1 7, el 0 9, el (-1) (-1)] 2 3) 0 6
     = (Inr (), pq [0, 1, -1] [el 0 6, el 1 7, el (-1) (-1)] 2 3)"
    by code_simp
  from Push_twice_keeps_last_distance [OF r p1 p2] r p1 p2 show ?thesis by simp
qed

section \<open>Counting pushes and pops\<close>

lemma Push_fresh:
  assumes c: "consistent s" and t: "tight s" and nv: "v \<notin> V ` set (present s)"
    and p: "Push s v d = (Inr u, s')"
  shows "consistent s' \<and> tight s' \<and> NumElements s' = NumElements s + 1 \<and>
         V ` set (present s') = insert v (V ` set (present s))"
proof -
  from p have v: "0 \<le> v" "v < Capacity s" by (auto simp: Push_def split: if_splits)
  with t nv have "\<not> 0 \<le> getP s v" by (auto simp: tight_def)
  with p have ins: "Insert s v d = (Inr u, s')"
    by (auto simp: Push_def Let_def split: if_splits)
  from Insert_consistent [OF c ins]
  have c': "consistent s'" and m: "mset (present s') = add_mset (el v d) (mset (present s))"
    and n: "NumElements s' = NumElements s + 1" and cap: "Capacity s' = Capacity s"
    and fr: "\<And>j. 0 \<le> j \<Longrightarrow> j \<noteq> v \<Longrightarrow> j \<notin> V ` set (present s) \<Longrightarrow> getP s' j = getP s j"
    by simp_all
  from m have "set_mset (mset (present s')) = set_mset (add_mset (el v d) (mset (present s)))"
    by simp
  then have st: "set (present s') = insert (el v d) (set (present s))" by simp
  then have vs: "V ` set (present s') = insert v (V ` set (present s))" by simp
  have "j \<in> V ` set (present s')" if "0 \<le> j" "j < Capacity s'" "0 \<le> getP s' j" for j
  proof (cases "j = v \<or> j \<in> V ` set (present s)")
    case True
    then show ?thesis unfolding vs by blast
  next
    case False
    with fr [of j] that have "0 \<le> getP s j" by simp
    with t that cap have "j \<in> V ` set (present s)" by (simp add: tight_def)
    with False show ?thesis by simp
  qed
  then have "tight s'" by (simp add: tight_def)
  with c' n vs show ?thesis by simp
qed

lemma pushAll_count:
  assumes "consistent s" "tight s" "distinct (map fst vds)"
    "fst ` set vds \<inter> V ` set (present s) = {}" "pushAll s vds = (Inr u, s')"
  shows "consistent s' \<and> NumElements s' = NumElements s + int (length vds)"
  using assms
proof (induction vds arbitrary: s)
  case Nil
  then show ?case by simp
next
  case (Cons a vds)
  obtain v d where a: "a = (v, d)" by (cases a)
  from Cons.prems(5) obtain s1 where p: "Push s v d = (Inr (), s1)"
    and rest: "pushAll s1 vds = (Inr u, s')"
    by (auto simp: a split: prod.splits sum.splits)
  from Cons.prems(4) have nv: "v \<notin> V ` set (present s)" by (auto simp: a)
  from Push_fresh [OF Cons.prems(1,2) nv p]
  have s1: "consistent s1" "tight s1" "NumElements s1 = NumElements s + 1"
    "V ` set (present s1) = insert v (V ` set (present s))"
    by simp_all
  have "distinct (map fst vds)" "fst ` set vds \<inter> V ` set (present s1) = {}"
    using Cons.prems(3,4) by (auto simp: a s1(4))
  from Cons.IH [OF s1(1,2) this rest] show ?case by (simp add: s1(3))
qed

lemma popAll_count:
  assumes "consistent s" "popAll s m = (Inr vs, s')"
  shows "consistent s' \<and> NumElements s' = NumElements s - int m"
  using assms
proof (induction m arbitrary: s vs)
  case 0
  then show ?case by simp
next
  case (Suc m)
  from Suc.prems(2) obtain v s1 ws where p: "PopMin s = (Inr v, s1)"
    and rest: "popAll s1 m = (Inr ws, s')"
    by (auto split: prod.splits sum.splits)
  from PopMin_consistent [OF Suc.prems(1) p]
  have s1: "consistent s1" "NumElements s1 = NumElements s - 1" by simp_all
  from Suc.IH [OF s1(1) rest] show ?case by (simp add: s1(2))
qed

text \<open>
  C8. Take a freshly constructed queue, push the pairs of a list \<open>vds\<close> whose
  vertices are pairwise different (\<open>k = length vds\<close> pushes, all returning normally),
  then pop \<open>m\<close> times, all returning normally. Then \<open>m \<le> k\<close>, and \<open>Empty\<close> holds
  afterwards exactly when \<open>k = m\<close>.
\<close>

theorem Empty_iff_all_popped:
  assumes "PQueue N = Inr q0" "distinct (map fst vds)" "pushAll q0 vds = (Inr u, q1)"
    "popAll q1 m = (Inr vs, q2)"
  shows "m \<le> length vds \<and> (Empty q2 \<longleftrightarrow> length vds = m)"
proof -
  from PQueue_consistent [OF assms(1)]
  have q0: "consistent q0" "tight q0" "NumElements q0 = 0" by simp_all
  then have "present q0 = []" by (simp add: present_def)
  then have "fst ` set vds \<inter> V ` set (present q0) = {}" by simp
  from pushAll_count [OF q0(1,2) assms(2) this assms(3)]
  have q1: "consistent q1" "NumElements q1 = int (length vds)" by (simp_all add: q0(3))
  from popAll_count [OF q1(1) assms(4)]
  have q2: "consistent q2" "NumElements q2 = int (length vds) - int m" by (simp_all add: q1(2))
  from q2(1) have "0 \<le> NumElements q2" by (simp add: consistent_def)
  with q2(2) show ?thesis by (auto simp: Empty_def)
qed

theorem Empty_iff_all_popped_witness:
  "PQueue 3 = Inr (pq [-1, -1, -1] [el (-1) (-1), el (-1) (-1), el (-1) (-1)] 0 3) \<and>
   pushAll (pq [-1, -1, -1] [el (-1) (-1), el (-1) (-1), el (-1) (-1)] 0 3)
       [(0, 10), (1, 9), (2, 8)]
     = (Inr (), pq [1, 2, 0] [el 2 8, el 0 10, el 1 9] 3 3) \<and>
   popAll (pq [1, 2, 0] [el 2 8, el 0 10, el 1 9] 3 3) 3
     = (Inr [2, 1, 0], pq [-1, -1, -1] [el (-1) (-1), el (-1) (-1), el (-1) (-1)] 0 3) \<and>
   Empty (pq [-1, -1, -1] [el (-1) (-1), el (-1) (-1), el (-1) (-1)] 0 3) \<and>
   popAll (pq [1, 2, 0] [el 2 8, el 0 10, el 1 9] 3 3) 2
     = (Inr [2, 1], pq [0, -1, -1] [el 0 10, el (-1) (-1), el (-1) (-1)] 1 3) \<and>
   \<not> Empty (pq [0, -1, -1] [el 0 10, el (-1) (-1), el (-1) (-1)] 1 3)"
proof -
  have new: "PQueue 3 = Inr (pq [-1, -1, -1] [el (-1) (-1), el (-1) (-1), el (-1) (-1)] 0 3)"
    by code_simp
  have d: "distinct (map fst [(0::int, 10::real), (1, 9), (2, 8)])" by simp
  have pushes: "pushAll (pq [-1, -1, -1] [el (-1) (-1), el (-1) (-1), el (-1) (-1)] 0 3)
       [(0, 10), (1, 9), (2, 8)]
     = (Inr (), pq [1, 2, 0] [el 2 8, el 0 10, el 1 9] 3 3)"
    by code_simp
  have pops3: "popAll (pq [1, 2, 0] [el 2 8, el 0 10, el 1 9] 3 3) 3
     = (Inr [2, 1, 0], pq [-1, -1, -1] [el (-1) (-1), el (-1) (-1), el (-1) (-1)] 0 3)"
    by code_simp
  have pops2: "popAll (pq [1, 2, 0] [el 2 8, el 0 10, el 1 9] 3 3) 2
     = (Inr [2, 1], pq [0, -1, -1] [el 0 10, el (-1) (-1), el (-1) (-1)] 1 3)"
    by code_simp
  from Empty_iff_all_popped [OF new d pushes pops3] Empty_iff_all_popped [OF new d pushes pops2]
    new pushes pops3 pops2
  show ?thesis by simp
qed

end
